theory Spec2Isabelle
  imports Complex_Main "HOL-Library.Multiset" "HOL-Library.Monad_Syntax" "HOL-Library.Log_Nat"
begin

section \<open>Bounding volume hierarchy: the construction of bounding_box_tree.h\<close>

text \<open>
  The embedding follows \<^verbatim>\<open>struct BoundingBoxTree\<close> of
  \<^verbatim>\<open>Projects/particle/mesh_query0.1/bounding_box_tree.h\<close>.

  \<^item> A \<^verbatim>\<open>double\<close> is a \<open>real\<close>. Every arithmetic operation of the source on doubles
    is the exact operation followed by a rounding function \<open>rnd\<close>, which all the
    functions below take as their first argument. Comparisons are exact. Infinities and
    NaN are outside the model: the input coordinates are finite and no operation
    overflows. \<open>binary64\<close> below is the rounding of IEEE 754 double precision.
  \<^item> \<^verbatim>\<open>unsigned int\<close> counts and depths are \<open>nat\<close>, the \<^verbatim>\<open>int\<close> scan pointers
    \<open>i\<close>, \<open>j\<close> are \<open>int\<close> (slices are shorter than \<open>2^31\<close>).
  \<^item> A slice \<^verbatim>\<open>(local_index, num_indices)\<close> of the identifier array is the list of its
    \<open>num_indices\<close> elements. The two recursive calls work on the disjoint slices
    \<^verbatim>\<open>[0, i)\<close> and \<^verbatim>\<open>[i, num_indices)\<close>, which are \<open>take\<close> and \<open>drop\<close> of the list.
  \<^item> An \<^verbatim>\<open>assert\<close> that fails is the result \<open>Inl AssertionFailed\<close>; a computation that
    does not return is \<open>None\<close>.
\<close>

subsection \<open>Vectors and boxes\<close>

datatype Vec3d = Vec3d real real real

fun vget :: "Vec3d \<Rightarrow> nat \<Rightarrow> real" where
  "vget (Vec3d x y z) a = (if a = 0 then x else if a = 1 then y else z)"

record BoundingBox =
  xmin :: Vec3d
  xmax :: Vec3d

text \<open>
  Modelled from the spec: the header \<^verbatim>\<open>bounding_box.h\<close> and the vector class are not
  part of the sources. The spec describes the box as "a pair of corner vectors (min, max)
  over 3 axes" that "supports union-with-box, union-with-point"; the vector operations
  are the componentwise ones the source's operators \<^verbatim>\<open>+\<close>, \<^verbatim>\<open>+=\<close>, \<^verbatim>\<open>*\<close>, \<^verbatim>\<open>*=\<close> name.
\<close>

fun vadd :: "(real \<Rightarrow> real) \<Rightarrow> Vec3d \<Rightarrow> Vec3d \<Rightarrow> Vec3d" where
  "vadd rnd (Vec3d x y z) (Vec3d x' y' z') = Vec3d (rnd (x + x')) (rnd (y + y')) (rnd (z + z'))"

fun vscale :: "(real \<Rightarrow> real) \<Rightarrow> real \<Rightarrow> Vec3d \<Rightarrow> Vec3d" where
  "vscale rnd s (Vec3d x y z) = Vec3d (rnd (s * x)) (rnd (s * y)) (rnd (s * z))"

fun vmin :: "Vec3d \<Rightarrow> Vec3d \<Rightarrow> Vec3d" where
  "vmin (Vec3d x y z) (Vec3d x' y' z') = Vec3d (min x x') (min y y') (min z z')"

fun vmax :: "Vec3d \<Rightarrow> Vec3d \<Rightarrow> Vec3d" where
  "vmax (Vec3d x y z) (Vec3d x' y' z') = Vec3d (max x x') (max y y') (max z z')"

text \<open>Modelled from the spec: the constructor of a box from one point.\<close>

definition box_of_point :: "Vec3d \<Rightarrow> BoundingBox" where
  "box_of_point p = \<lparr>xmin = p, xmax = p\<rparr>"

text \<open>Modelled from the spec: \<^verbatim>\<open>include_point\<close>, the union of a box with a point.\<close>

definition include_point :: "BoundingBox \<Rightarrow> Vec3d \<Rightarrow> BoundingBox" where
  "include_point b p = \<lparr>xmin = vmin (xmin b) p, xmax = vmax (xmax b) p\<rparr>"

text \<open>Modelled from the spec: \<^verbatim>\<open>include_box\<close>, the union of two boxes.\<close>

definition include_box :: "BoundingBox \<Rightarrow> BoundingBox \<Rightarrow> BoundingBox" where
  "include_box b c = \<lparr>xmin = vmin (xmin b) (xmin c), xmax = vmax (xmax b) (xmax c)\<rparr>"

text \<open>
  Modelled from the spec: the default constructor of a box, which the header would
  define. "A node is created empty"; line 79 overwrites the box before anything reads it.
\<close>

definition default_box :: BoundingBox where
  "default_box = \<lparr>xmin = Vec3d 0 0 0, xmax = Vec3d 0 0 0\<rparr>"

subsection \<open>IEEE 754 double precision rounding\<close>

text \<open>Round to the nearest integer, a tie to the even one.\<close>

definition round_to_even :: "real \<Rightarrow> int" where
  "round_to_even x =
     (let f = \<lfloor>x\<rfloor>; d = x - of_int f
      in if d < 1 / 2 then f else if 1 / 2 < d then f + 1 else if even f then f else f + 1)"

text \<open>The exponent \<open>e\<close> with \<open>2^e \<le> |x| < 2^(e+1)\<close>, for \<open>x \<noteq> 0\<close>.\<close>

definition binade :: "real \<Rightarrow> int" where
  "binade x = (if 1 \<le> \<bar>x\<bar> then bitlen \<lfloor>\<bar>x\<bar>\<rfloor> - 1 else - bitlen (\<lceil>1 / \<bar>x\<bar>\<rceil> - 1))"

text \<open>
  The nearest number with a 53-bit significand, ties to even, with the subnormal spacing
  \<open>2^-1074\<close> below \<open>2^-1022\<close>.
\<close>

definition binary64 :: "real \<Rightarrow> real" where
  "binary64 x =
     (if x = 0 then 0
      else let e = max (binade x) (- 1022) - 52
           in of_int (round_to_even (x * 2 powi (- e))) * 2 powi e)"

subsection \<open>The node\<close>

datatype BoundingBoxTree =
  BoundingBoxTree (box: BoundingBox) (index: "nat list") (children: "BoundingBoxTree list")

datatype error = AssertionFailed

text \<open>\<^verbatim>\<open>clear\<close>, lines 34-40: the box stays, both vectors are emptied.\<close>

definition clear :: "BoundingBoxTree \<Rightarrow> BoundingBoxTree" where
  "clear this = BoundingBoxTree (box this) [] []"

text \<open>\<^verbatim>\<open>new BoundingBoxTree\<close>, lines 28, 139, 143.\<close>

definition new_BoundingBoxTree :: BoundingBoxTree where
  "new_BoundingBoxTree = BoundingBoxTree default_box [] []"

subsection \<open>The steps of construct_recursively\<close>

text \<open>Lines 79-81: the box of everything in the slice.\<close>

definition node_box :: "BoundingBox list \<Rightarrow> nat list \<Rightarrow> BoundingBox" where
  "node_box input_box local_index =
     foldl (\<lambda>b k. include_box b (input_box ! k)) (input_box ! (local_index ! 0)) (tl local_index)"

text \<open>Lines 91-97: the box of the centroids, and their mean.\<close>

definition centroid_box_of :: "Vec3d list \<Rightarrow> nat list \<Rightarrow> BoundingBox" where
  "centroid_box_of centroid local_index =
     foldl (\<lambda>b k. include_point b (centroid ! k))
       (box_of_point (centroid ! (local_index ! 0))) (tl local_index)"

definition mean_of :: "(real \<Rightarrow> real) \<Rightarrow> Vec3d list \<Rightarrow> nat list \<Rightarrow> Vec3d" where
  "mean_of rnd centroid local_index =
     vscale rnd (rnd (1 / real (length local_index)))
       (foldl (\<lambda>m k. vadd rnd m (centroid ! k)) (centroid ! (local_index ! 0)) (tl local_index))"

text \<open>Lines 106-111: the axis of the split.\<close>

definition extent :: "(real \<Rightarrow> real) \<Rightarrow> BoundingBox \<Rightarrow> nat \<Rightarrow> real" where
  "extent rnd centroid_box a = rnd (vget (xmax centroid_box) a - vget (xmin centroid_box) a)"

definition choose_axis :: "(real \<Rightarrow> real) \<Rightarrow> BoundingBox \<Rightarrow> nat" where
  "choose_axis rnd centroid_box =
     foldl (\<lambda>axis a. if extent rnd centroid_box a > extent rnd centroid_box axis then a else axis)
       0 [1..<3]"

text \<open>Lines 115-117: the splitting value.\<close>

definition split_value :: "(real \<Rightarrow> real) \<Rightarrow> BoundingBox \<Rightarrow> Vec3d \<Rightarrow> nat \<Rightarrow> real" where
  "split_value rnd centroid_box mean axis =
     (let split = vget mean axis
      in if split \<le> vget (xmin centroid_box) axis \<or> split \<ge> vget (xmax centroid_box) axis
         then rnd (0.5 * rnd (vget (xmin centroid_box) axis + vget (xmax centroid_box) axis))
         else split)"

text \<open>Lines 121-123 and 124-125: the two scans.\<close>

function scan_i :: "Vec3d list \<Rightarrow> nat \<Rightarrow> real \<Rightarrow> nat list \<Rightarrow> int \<Rightarrow> int" where
  "scan_i centroid axis split local_index i =
     (if 0 \<le> i \<and> i < int (length local_index)
         \<and> vget (centroid ! (local_index ! nat i)) axis \<le> split
      then scan_i centroid axis split local_index (i + 1)
      else i)"
  by pat_completeness auto
termination
  by (relation "measure (\<lambda>(centroid, axis, split, local_index, i). nat (int (length local_index) - i))")
    auto

function scan_j :: "Vec3d list \<Rightarrow> nat \<Rightarrow> real \<Rightarrow> nat list \<Rightarrow> int \<Rightarrow> int" where
  "scan_j centroid axis split local_index j =
     (if j \<ge> 0 \<and> vget (centroid ! (local_index ! nat j)) axis > split
      then scan_j centroid axis split local_index (j - 1)
      else j)"
  by pat_completeness auto
termination
  by (relation "measure (\<lambda>(centroid, axis, split, local_index, j). nat (j + 1))") auto

declare scan_i.simps [simp del] scan_j.simps [simp del]

text \<open>
  Lines 120-133: the loop \<^verbatim>\<open>for(;;)\<close> of the in-place split. It returns the final \<open>i\<close> and
  the slice as the swaps left it.
\<close>

partial_function (option) partition_loop ::
  "Vec3d list \<Rightarrow> nat \<Rightarrow> real \<Rightarrow> nat list \<Rightarrow> int \<Rightarrow> int \<Rightarrow> (int \<times> nat list) option" where
  "partition_loop centroid axis split local_index i j =
     (let i = scan_i centroid axis split local_index i;
          j = scan_j centroid axis split local_index j
      in if i < j
         then partition_loop centroid axis split
                (local_index[nat i := local_index ! nat j, nat j := local_index ! nat i])
                (i + 1) (j - 1)
         else Some (i, local_index))"

declare partition_loop.simps [code]

text \<open>Lines 67-150. The argument \<open>n\<close> of the source is never used and is left out.\<close>

partial_function (option) construct_recursively ::
  "(real \<Rightarrow> real) \<Rightarrow> BoundingBox list \<Rightarrow> nat \<Rightarrow> nat \<Rightarrow> nat \<Rightarrow> nat list \<Rightarrow> Vec3d list
     \<Rightarrow> BoundingBoxTree \<Rightarrow> (error + BoundingBoxTree) option" where
  "construct_recursively rnd input_box max_depth boxes_per_leaf current_depth local_index
       centroid this =
     (let num_indices = length local_index
      in if \<not> num_indices > 0 then Some (Inl AssertionFailed)
      else
        let b = node_box input_box local_index
        in if current_depth = max_depth \<or> num_indices \<le> boxes_per_leaf
           then Some (Inr (BoundingBoxTree b local_index (children this)))
           else
             let centroid_box = centroid_box_of centroid local_index;
                 mean = mean_of rnd centroid local_index
             in if xmax centroid_box = xmin centroid_box
                then Some (Inr (BoundingBoxTree b local_index (children this)))
                else
                  let axis = choose_axis rnd centroid_box;
                      split = split_value rnd centroid_box mean axis
                  in do {
                    (i, local_index) \<leftarrow>
                       partition_loop centroid axis split local_index 0 (int num_indices - 1);
                    if \<not> nat i < num_indices then Some (Inl AssertionFailed)
                    else do {
                      r0 \<leftarrow> construct_recursively rnd input_box max_depth boxes_per_leaf
                              (current_depth + 1) (take (nat i) local_index) centroid
                              new_BoundingBoxTree;
                      case r0 of
                        Inl e \<Rightarrow> Some (Inl e)
                      | Inr child0 \<Rightarrow> do {
                          r1 \<leftarrow> construct_recursively rnd input_box max_depth boxes_per_leaf
                                  (current_depth + 1) (drop (nat i) local_index) centroid
                                  new_BoundingBoxTree;
                          case r1 of
                            Inl e \<Rightarrow> Some (Inl e)
                          | Inr child1 \<Rightarrow>
                              Some (Inr (BoundingBoxTree b (index this) [child0, child1]))
                        }
                    }
                  })"

declare construct_recursively.simps [code]

text \<open>Lines 42-64. Line 56: the centroid of an input box.\<close>

definition centroid_of :: "(real \<Rightarrow> real) \<Rightarrow> BoundingBox \<Rightarrow> Vec3d" where
  "centroid_of rnd b = vscale rnd 0.5 (vadd rnd (xmin b) (xmax b))"

definition construct_from_leaf_boxes ::
  "(real \<Rightarrow> real) \<Rightarrow> BoundingBoxTree \<Rightarrow> nat \<Rightarrow> BoundingBox list \<Rightarrow> nat \<Rightarrow> nat
     \<Rightarrow> (error + BoundingBoxTree) option" where
  "construct_from_leaf_boxes rnd this n input_box max_depth boxes_per_leaf =
     (if \<not> (n \<ge> 1 \<and> boxes_per_leaf > 0) then Some (Inl AssertionFailed)
      else
        let this = clear this;
            global_index = [0..<n];
            global_centroid = map (\<lambda>i. centroid_of rnd (input_box ! i)) [0..<n]
        in construct_recursively rnd input_box max_depth boxes_per_leaf 0 global_index
             global_centroid this)"

subsection \<open>Names for the statements\<close>

text \<open>The axis, the splitting value and the test of line 99, as construct_recursively computes them.\<close>

definition split_axis :: "(real \<Rightarrow> real) \<Rightarrow> Vec3d list \<Rightarrow> nat list \<Rightarrow> nat" where
  "split_axis rnd centroid local_index = choose_axis rnd (centroid_box_of centroid local_index)"

definition split_at :: "(real \<Rightarrow> real) \<Rightarrow> Vec3d list \<Rightarrow> nat list \<Rightarrow> real" where
  "split_at rnd centroid local_index =
     split_value rnd (centroid_box_of centroid local_index) (mean_of rnd centroid local_index)
       (split_axis rnd centroid local_index)"

definition degenerate :: "Vec3d list \<Rightarrow> nat list \<Rightarrow> bool" where
  "degenerate centroid local_index =
     (xmax (centroid_box_of centroid local_index) = xmin (centroid_box_of centroid local_index))"

text \<open>All nodes of a tree, the root first, and the same with the depth of each node.\<close>

fun nodes :: "BoundingBoxTree \<Rightarrow> BoundingBoxTree list" where
  "nodes (BoundingBoxTree b idx cs) = BoundingBoxTree b idx cs # concat (map nodes cs)"

fun nodes_depth :: "nat \<Rightarrow> BoundingBoxTree \<Rightarrow> (nat \<times> BoundingBoxTree) list" where
  "nodes_depth d (BoundingBoxTree b idx cs) =
     (d, BoundingBoxTree b idx cs) # concat (map (nodes_depth (d + 1)) cs)"

text \<open>The identifiers in the \<open>index\<close> arrays of the leaves (the nodes without children).\<close>

definition leaf_indices :: "BoundingBoxTree \<Rightarrow> nat list" where
  "leaf_indices t = concat (map index (filter (\<lambda>u. children u = []) (nodes t)))"

text \<open>The example of the spec: four boxes with centroids at \<open>x = 0, 1, 10, 11\<close>.\<close>

definition example_boxes :: "BoundingBox list" where
  "example_boxes =
     [box_of_point (Vec3d 0 0 0), box_of_point (Vec3d 1 0 0),
      box_of_point (Vec3d 10 0 0), box_of_point (Vec3d 11 0 0)]"

definition example_tree :: BoundingBoxTree where
  "example_tree =
     BoundingBoxTree \<lparr>xmin = Vec3d 0 0 0, xmax = Vec3d 11 0 0\<rparr> []
       [BoundingBoxTree \<lparr>xmin = Vec3d 0 0 0, xmax = Vec3d 1 0 0\<rparr> []
          [BoundingBoxTree \<lparr>xmin = Vec3d 0 0 0, xmax = Vec3d 0 0 0\<rparr> [0] [],
           BoundingBoxTree \<lparr>xmin = Vec3d 1 0 0, xmax = Vec3d 1 0 0\<rparr> [1] []],
        BoundingBoxTree \<lparr>xmin = Vec3d 10 0 0, xmax = Vec3d 11 0 0\<rparr> []
          [BoundingBoxTree \<lparr>xmin = Vec3d 10 0 0, xmax = Vec3d 10 0 0\<rparr> [2] [],
           BoundingBoxTree \<lparr>xmin = Vec3d 11 0 0, xmax = Vec3d 11 0 0\<rparr> [3] []]]"

definition example_centroid :: "Vec3d list" where
  "example_centroid = map (centroid_of (\<lambda>x. x)) example_boxes"

text \<open>
  The union of the input boxes of a list of identifiers, as the spec words the invariant of
  \<open>box\<close> ("equals the union of the boxes of all leaf inputs assigned to this node's
  subtree"): on every axis the least lower corner and the greatest upper corner.
\<close>

definition union_of_boxes :: "BoundingBox list \<Rightarrow> nat list \<Rightarrow> BoundingBox" where
  "union_of_boxes input_box ks =
     (let lo = (\<lambda>a. Min (set (map (\<lambda>k. vget (xmin (input_box ! k)) a) ks)));
          hi = (\<lambda>a. Max (set (map (\<lambda>k. vget (xmax (input_box ! k)) a) ks)))
      in \<lparr>xmin = Vec3d (lo 0) (lo 1) (lo 2), xmax = Vec3d (hi 0) (hi 1) (hi 2)\<rparr>)"

text \<open>The box \<open>b\<close> contains the box \<open>c\<close>.\<close>

definition box_contains :: "BoundingBox \<Rightarrow> BoundingBox \<Rightarrow> bool" where
  "box_contains b c =
     list_all (\<lambda>a. vget (xmin b) a \<le> vget (xmin c) a \<and> vget (xmax c) a \<le> vget (xmax b) a)
       [0..<3]"

text \<open>Two centroids whose extents on the axes 1 and 2 tie.\<close>

definition tie_centroid :: "Vec3d list" where
  "tie_centroid = [Vec3d 0 0 0, Vec3d 1 2 2]"

text \<open>Two copies of the unit cube.\<close>

definition unit_box :: BoundingBox where
  "unit_box = \<lparr>xmin = Vec3d 0 0 0, xmax = Vec3d 1 1 1\<rparr>"

text \<open>
  The bound of the spec on depth and leaf size ("no node's depth from the root exceeds
  \<open>max_depth\<close>; every leaf has \<open>count \<le> boxes_per_leaf\<close> OR is at exactly \<open>max_depth\<close>"),
  over the nodes of a tree with their depths.
\<close>

definition termination_bound :: "nat \<Rightarrow> nat \<Rightarrow> BoundingBoxTree \<Rightarrow> bool" where
  "termination_bound max_depth boxes_per_leaf t =
     list_all (\<lambda>(d, u). d \<le> max_depth
                 \<and> (children u = [] \<longrightarrow> length (index u) \<le> boxes_per_leaf \<or> d = max_depth))
       (nodes_depth 0 t)"

text \<open>
  Two boxes whose corners are doubles and whose centroids on the axis 0 are the
  neighbouring doubles \<open>1 + 2^-52\<close> and \<open>1 + 2^-51\<close>.
\<close>

definition close_boxes :: "BoundingBox list" where
  "close_boxes =
     [\<lparr>xmin = Vec3d 1 0 0, xmax = Vec3d (1 + 1 / 2 ^ 51) 1 1\<rparr>,
      \<lparr>xmin = Vec3d 1 0 0, xmax = Vec3d (1 + 1 / 2 ^ 50) 1 1\<rparr>]"

definition close_centroid :: "Vec3d list" where
  "close_centroid = map (centroid_of binary64) close_boxes"

text \<open>
  The centroid extent of the spec on an axis: "\<open>max - min\<close>" over the centroids of the
  slice, as an exact difference.
\<close>

definition centroid_extent :: "Vec3d list \<Rightarrow> nat list \<Rightarrow> nat \<Rightarrow> real" where
  "centroid_extent centroid local_index a =
     Max ((\<lambda>k. vget (centroid ! k) a) ` set local_index)
       - Min ((\<lambda>k. vget (centroid ! k) a) ` set local_index)"

text \<open>
  Two point boxes at doubles: the extent of their centroids is \<open>2^53\<close> on the axis 0 and
  \<open>2^53 + 1\<close> on the axis 1.
\<close>

definition wide_boxes :: "BoundingBox list" where
  "wide_boxes = [box_of_point (Vec3d 0 (- 1) 0), box_of_point (Vec3d (2 ^ 53) (2 ^ 53) 0)]"

definition wide_centroid :: "Vec3d list" where
  "wide_centroid = map (centroid_of binary64) wide_boxes"

section \<open>The scans and the in-place split\<close>


lemma scan_i_props:
  assumes "0 \<le> i" "i \<le> int (length li)"
  shows "i \<le> scan_i c axis split li i \<and> scan_i c axis split li i \<le> int (length li)
     \<and> (\<forall>k. i \<le> k \<and> k < scan_i c axis split li i \<longrightarrow> vget (c ! (li ! nat k)) axis \<le> split)
     \<and> (scan_i c axis split li i < int (length li)
          \<longrightarrow> \<not> vget (c ! (li ! nat (scan_i c axis split li i))) axis \<le> split)"
  using assms
proof (induction c axis split li i rule: scan_i.induct)
  case (1 c axis split li i)
  show ?case
  proof (cases "i < int (length li) \<and> vget (c ! (li ! nat i)) axis \<le> split")
    case True
    with 1 have IH: "i + 1 \<le> scan_i c axis split li (i + 1)"
      "scan_i c axis split li (i + 1) \<le> int (length li)"
      "\<forall>k. i + 1 \<le> k \<and> k < scan_i c axis split li (i + 1) \<longrightarrow> vget (c ! (li ! nat k)) axis \<le> split"
      "scan_i c axis split li (i + 1) < int (length li)
          \<longrightarrow> \<not> vget (c ! (li ! nat (scan_i c axis split li (i + 1)))) axis \<le> split"
      by auto
    have eq: "scan_i c axis split li i = scan_i c axis split li (i + 1)"
      using True 1(2) by (subst scan_i.simps) simp
    have "\<forall>k. i \<le> k \<and> k < scan_i c axis split li (i + 1) \<longrightarrow> vget (c ! (li ! nat k)) axis \<le> split"
    proof (intro allI impI)
      fix k assume "i \<le> k \<and> k < scan_i c axis split li (i + 1)"
      then show "vget (c ! (li ! nat k)) axis \<le> split"
        using IH(3) True by (cases "k = i") auto
    qed
    with IH eq show ?thesis by simp
  next
    case False
    then have eq: "scan_i c axis split li i = i"
      by (subst scan_i.simps) auto
    show ?thesis using False 1(2,3) by (auto simp: eq)
  qed
qed

lemma scan_j_props:
  assumes "- 1 \<le> j"
  shows "scan_j c axis split li j \<le> j \<and> - 1 \<le> scan_j c axis split li j
     \<and> (\<forall>k. scan_j c axis split li j < k \<and> k \<le> j \<longrightarrow> \<not> vget (c ! (li ! nat k)) axis \<le> split)
     \<and> (0 \<le> scan_j c axis split li j
          \<longrightarrow> vget (c ! (li ! nat (scan_j c axis split li j))) axis \<le> split)"
  using assms
proof (induction c axis split li j rule: scan_j.induct)
  case (1 c axis split li j)
  show ?case
  proof (cases "j \<ge> 0 \<and> vget (c ! (li ! nat j)) axis > split")
    case True
    with 1 have IH: "scan_j c axis split li (j - 1) \<le> j - 1"
      "- 1 \<le> scan_j c axis split li (j - 1)"
      "\<forall>k. scan_j c axis split li (j - 1) < k \<and> k \<le> j - 1 \<longrightarrow> \<not> vget (c ! (li ! nat k)) axis \<le> split"
      "0 \<le> scan_j c axis split li (j - 1)
          \<longrightarrow> vget (c ! (li ! nat (scan_j c axis split li (j - 1)))) axis \<le> split"
      by auto
    have eq: "scan_j c axis split li j = scan_j c axis split li (j - 1)"
      using True by (subst scan_j.simps) simp
    have "\<forall>k. scan_j c axis split li (j - 1) < k \<and> k \<le> j \<longrightarrow> \<not> vget (c ! (li ! nat k)) axis \<le> split"
    proof (intro allI impI)
      fix k assume "scan_j c axis split li (j - 1) < k \<and> k \<le> j"
      then show "\<not> vget (c ! (li ! nat k)) axis \<le> split"
        using IH(3) True by (cases "k = j") auto
    qed
    with IH eq show ?thesis by simp
  next
    case False
    then have eq: "scan_j c axis split li j = j"
      by (subst scan_j.simps) auto
    show ?thesis using False 1(2) by (auto simp: eq)
  qed
qed


lemma partition_loop_inv:
  assumes "0 \<le> i" "j < int (length li)" "i \<le> j + 1"
    and "\<forall>k. k < nat i \<longrightarrow> vget (c ! (li ! k)) axis \<le> split"
    and "\<forall>k. nat (j + 1) \<le> k \<and> k < length li \<longrightarrow> \<not> vget (c ! (li ! k)) axis \<le> split"
  shows "\<exists>i' li'. partition_loop c axis split li i j = Some (i', li')
     \<and> mset li' = mset li \<and> 0 \<le> i' \<and> i' \<le> int (length li)
     \<and> (\<forall>k. k < nat i' \<longrightarrow> vget (c ! (li' ! k)) axis \<le> split)
     \<and> (\<forall>k. nat i' \<le> k \<and> k < length li' \<longrightarrow> \<not> vget (c ! (li' ! k)) axis \<le> split)"
  using assms
proof (induction "nat (j - i + 1)" arbitrary: i j li rule: less_induct)
  case less
  define i1 where "i1 = scan_i c axis split li i"
  define j1 where "j1 = scan_j c axis split li j"
  have i_le: "i \<le> int (length li)" using less.prems by linarith
  from scan_i_props[OF less.prems(1) i_le, of c axis split, folded i1_def]
  have I: "i \<le> i1" "i1 \<le> int (length li)"
    "\<And>k. i \<le> k \<Longrightarrow> k < i1 \<Longrightarrow> vget (c ! (li ! nat k)) axis \<le> split"
    "i1 < int (length li) \<Longrightarrow> \<not> vget (c ! (li ! nat i1)) axis \<le> split"
    by auto
  have j_ge: "- 1 \<le> j" using less.prems by linarith
  from scan_j_props[OF j_ge, of c axis split li, folded j1_def]
  have J: "j1 \<le> j" "- 1 \<le> j1"
    "\<And>k. j1 < k \<Longrightarrow> k \<le> j \<Longrightarrow> \<not> vget (c ! (li ! nat k)) axis \<le> split"
    "0 \<le> j1 \<Longrightarrow> vget (c ! (li ! nat j1)) axis \<le> split"
    by auto
  have pre: "\<And>k. k < nat i1 \<Longrightarrow> vget (c ! (li ! k)) axis \<le> split"
  proof -
    fix k assume k: "k < nat i1"
    show "vget (c ! (li ! k)) axis \<le> split"
    proof (cases "k < nat i")
      case True then show ?thesis using less.prems(4) by simp
    next
      case False
      then have "i \<le> int k" "int k < i1" using k by linarith+
      from I(3)[OF this] show ?thesis by simp
    qed
  qed
  have post: "\<And>k. nat (j1 + 1) \<le> k \<Longrightarrow> k < length li \<Longrightarrow> \<not> vget (c ! (li ! k)) axis \<le> split"
  proof -
    fix k assume k: "nat (j1 + 1) \<le> k" "k < length li"
    show "\<not> vget (c ! (li ! k)) axis \<le> split"
    proof (cases "nat (j + 1) \<le> k")
      case True then show ?thesis using less.prems(5) k by simp
    next
      case False
      then have "j1 < int k" "int k \<le> j" using k J by linarith+
      from J(3)[OF this] show ?thesis by simp
    qed
  qed
  show ?case
  proof (cases "i1 < j1")
    case True
    define li2 where "li2 = li[nat i1 := li ! nat j1, nat j1 := li ! nat i1]"
    have bounds: "0 \<le> i1" "nat i1 < length li" "nat j1 < length li" "nat i1 < nat j1" "0 \<le> j1"
      using True I(1) J(1) less.prems(1,2) by linarith+
    have unf: "partition_loop c axis split li i j = partition_loop c axis split li2 (i1 + 1) (j1 - 1)"
      using True by (subst partition_loop.simps) (simp add: i1_def j1_def li2_def Let_def)
    have len2: "length li2 = length li" by (simp add: li2_def)
    have mset2: "mset li2 = mset li"
      unfolding li2_def by (rule mset_swap) (rule bounds)+
    have Pi: "\<not> vget (c ! (li ! nat i1)) axis \<le> split" using I(4) bounds by linarith
    have Pj: "vget (c ! (li ! nat j1)) axis \<le> split" using J(4) bounds by linarith
    have ne: "nat i1 \<noteq> nat j1" using bounds by linarith
    have at_i: "li2 ! nat i1 = li ! nat j1"
      using bounds(2) ne by (simp add: li2_def nth_list_update)
    have at_j: "li2 ! nat j1 = li ! nat i1"
      using bounds(3) by (simp add: li2_def)
    have other: "li2 ! k = li ! k" if "k \<noteq> nat i1" "k \<noteq> nat j1" for k
      using that by (simp add: li2_def)
    have pre2: "\<forall>k. k < nat (i1 + 1) \<longrightarrow> vget (c ! (li2 ! k)) axis \<le> split"
    proof (intro allI impI)
      fix k assume k: "k < nat (i1 + 1)"
      show "vget (c ! (li2 ! k)) axis \<le> split"
      proof (cases "k = nat i1")
        case True
        then show ?thesis using Pj at_i by simp
      next
        case False
        then have "k < nat i1" using k bounds by linarith
        moreover from this have "k \<noteq> nat j1" using bounds by linarith
        ultimately show ?thesis using pre[of k] other[of k] False by simp
      qed
    qed
    have post2: "\<forall>k. nat (j1 - 1 + 1) \<le> k \<and> k < length li2 \<longrightarrow> \<not> vget (c ! (li2 ! k)) axis \<le> split"
    proof (intro allI impI)
      fix k assume k: "nat (j1 - 1 + 1) \<le> k \<and> k < length li2"
      show "\<not> vget (c ! (li2 ! k)) axis \<le> split"
      proof (cases "k = nat j1")
        case True
        then show ?thesis using Pi at_j by simp
      next
        case False
        then have "nat (j1 + 1) \<le> k" "k < length li" "k \<noteq> nat i1" using k bounds len2 by linarith+
        then show ?thesis using post[of k] other[of k] False by simp
      qed
    qed
    have m: "nat (j1 - 1 - (i1 + 1) + 1) < nat (j - i + 1)"
      using True I(1) J(1) by linarith
    have "\<exists>i' li'. partition_loop c axis split li2 (i1 + 1) (j1 - 1) = Some (i', li')
       \<and> mset li' = mset li2 \<and> 0 \<le> i' \<and> i' \<le> int (length li2)
       \<and> (\<forall>k. k < nat i' \<longrightarrow> vget (c ! (li' ! k)) axis \<le> split)
       \<and> (\<forall>k. nat i' \<le> k \<and> k < length li' \<longrightarrow> \<not> vget (c ! (li' ! k)) axis \<le> split)"
    proof (rule less.hyps[OF m])
      show "0 \<le> i1 + 1" using bounds by linarith
      show "j1 - 1 < int (length li2)" using bounds len2 by linarith
      show "i1 + 1 \<le> j1 - 1 + 1" using True by linarith
      show "\<forall>k. k < nat (i1 + 1) \<longrightarrow> vget (c ! (li2 ! k)) axis \<le> split" by (rule pre2)
      show "\<forall>k. nat (j1 - 1 + 1) \<le> k \<and> k < length li2 \<longrightarrow> \<not> vget (c ! (li2 ! k)) axis \<le> split"
        by (rule post2)
    qed
    then show ?thesis unfolding unf mset2 len2 .
  next
    case False
    have unf: "partition_loop c axis split li i j = Some (i1, li)"
      using False by (subst partition_loop.simps) (simp add: i1_def j1_def Let_def)
    have i1_ge: "0 \<le> i1" using I(1) less.prems(1) by linarith
    have "\<not> vget (c ! (li ! k)) axis \<le> split" if k: "nat i1 \<le> k" "k < length li" for k
    proof (cases "nat (j1 + 1) \<le> k")
      case True then show ?thesis using post k by simp
    next
      case False
      then have "int k = i1" using k \<open>\<not> i1 < j1\<close> i1_ge J(2) by linarith
      then show ?thesis using I(4) k by auto
    qed
    then show ?thesis using unf i1_ge I(2) pre by auto
  qed
qed

lemma scan_i_ge: "i \<le> scan_i c axis split li i"
proof (induction c axis split li i rule: scan_i.induct)
  case (1 c axis split li i)
  then show ?case by (subst scan_i.simps) (auto split: if_splits)
qed

lemma scan_j_le: "scan_j c axis split li j \<le> j"
proof (induction c axis split li j rule: scan_j.induct)
  case (1 c axis split li j)
  then show ?case by (subst scan_j.simps) (auto split: if_splits)
qed

lemma partition_loop_terminates: "\<exists>r. partition_loop c axis split li i j = Some r"
proof (induction "nat (j - i)" arbitrary: i j li rule: less_induct)
  case less
  define i1 where "i1 = scan_i c axis split li i"
  define j1 where "j1 = scan_j c axis split li j"
  have le: "i \<le> i1" "j1 \<le> j" by (simp_all add: i1_def j1_def scan_i_ge scan_j_le)
  show ?case
  proof (cases "i1 < j1")
    case True
    then have m: "nat (j1 - 1 - (i1 + 1)) < nat (j - i)" using le by linarith
    have "partition_loop c axis split li i j
        = partition_loop c axis split (li[nat i1 := li ! nat j1, nat j1 := li ! nat i1])
            (i1 + 1) (j1 - 1)"
      using True by (subst partition_loop.simps) (simp add: i1_def j1_def Let_def)
    with less.hyps[OF m] show ?thesis by simp
  next
    case False
    then show ?thesis by (subst partition_loop.simps) (simp add: i1_def j1_def Let_def)
  qed
qed

section \<open>Unfolding construct_recursively\<close>

lemma construct_recursively_Nil:
  "construct_recursively rnd ib md bpl d [] c this = Some (Inl AssertionFailed)"
  by (subst construct_recursively.simps) simp

lemma construct_recursively_leaf:
  assumes "li \<noteq> []" "d = md \<or> length li \<le> bpl \<or> degenerate c li"
  shows "construct_recursively rnd ib md bpl d li c this
    = Some (Inr (BoundingBoxTree (node_box ib li) li (children this)))"
  using assms by (subst construct_recursively.simps) (auto simp: Let_def degenerate_def)

lemma construct_recursively_split:
  assumes "li \<noteq> []" "d \<noteq> md" "bpl < length li" "\<not> degenerate c li"
    and "partition_loop c (split_axis rnd c li) (split_at rnd c li) li 0 (int (length li) - 1)
           = Some (i, li')"
  shows "construct_recursively rnd ib md bpl d li c this =
     (if \<not> nat i < length li then Some (Inl AssertionFailed)
      else case construct_recursively rnd ib md bpl (d + 1) (take (nat i) li') c new_BoundingBoxTree of
             None \<Rightarrow> None
           | Some (Inl e) \<Rightarrow> Some (Inl e)
           | Some (Inr child0) \<Rightarrow>
              (case construct_recursively rnd ib md bpl (d + 1) (drop (nat i) li') c new_BoundingBoxTree of
                 None \<Rightarrow> None
               | Some (Inl e) \<Rightarrow> Some (Inl e)
               | Some (Inr child1) \<Rightarrow>
                   Some (Inr (BoundingBoxTree (node_box ib li) (index this) [child0, child1]))))"
  using assms
  by (subst construct_recursively.simps)
     (auto simp: Let_def degenerate_def split_axis_def split_at_def split: option.splits sum.splits)


lemma partition_loop_start:
  "\<exists>i li'. partition_loop c axis split li 0 (int (length li) - 1) = Some (i, li')
     \<and> mset li' = mset li \<and> 0 \<le> i \<and> i \<le> int (length li)
     \<and> (\<forall>k. k < nat i \<longrightarrow> vget (c ! (li' ! k)) axis \<le> split)
     \<and> (\<forall>k. nat i \<le> k \<and> k < length li' \<longrightarrow> \<not> vget (c ! (li' ! k)) axis \<le> split)"
  by (rule partition_loop_inv) auto

lemma construct_recursively_terminates:
  "\<exists>r. construct_recursively rnd ib md bpl d li c this = Some r"
proof (induction "length li" arbitrary: d li this rule: less_induct)
  case less
  show ?case
  proof (cases "li = [] \<or> d = md \<or> length li \<le> bpl \<or> degenerate c li")
    case True
    then show ?thesis
      by (cases "li = []") (auto simp: construct_recursively_Nil construct_recursively_leaf)
  next
    case False
    then have F: "li \<noteq> []" "d \<noteq> md" "bpl < length li" "\<not> degenerate c li" by auto
    obtain i li' where
      p: "partition_loop c (split_axis rnd c li) (split_at rnd c li) li 0 (int (length li) - 1)
           = Some (i, li')" and m: "mset li' = mset li"
      using partition_loop_start by blast
    have len: "length li' = length li" using m by (rule mset_eq_length)
    note unf = construct_recursively_split[OF F p, where ib=ib and this=this]
    show ?thesis
    proof (cases "nat i < length li")
      case False
      then show ?thesis by (simp add: unf)
    next
      case True
      then have "length (take (nat i) li') < length li" using len by simp
      from less[OF this] obtain r0 where
        r0: "construct_recursively rnd ib md bpl (d + 1) (take (nat i) li') c new_BoundingBoxTree = Some r0"
        by blast
      show ?thesis
      proof (cases r0)
        case (Inl e)
        then show ?thesis using True r0 by (simp add: unf)
      next
        case (Inr child0)
        have "take (nat i) li' \<noteq> []"
          using r0 Inr by (auto simp: construct_recursively_Nil)
        then have "0 < nat i" by auto
        then have "length (drop (nat i) li') < length li" using len F(1) by simp
        from less[OF this] obtain r1 where
          r1: "construct_recursively rnd ib md bpl (d + 1) (drop (nat i) li') c new_BoundingBoxTree = Some r1"
          by blast
        show ?thesis using True r0 Inr r1 by (cases r1) (simp_all add: unf)
      qed
    qed
  qed
qed

lemma construct_recursively_induct [consumes 1, case_names leaf node]:
  assumes res: "construct_recursively rnd ib md bpl d li c this = Some (Inr t)"
    and leaf: "\<And>d li this. li \<noteq> [] \<Longrightarrow> d = md \<or> length li \<le> bpl \<or> degenerate c li
          \<Longrightarrow> P d li this (BoundingBoxTree (node_box ib li) li (children this))"
    and node: "\<And>d li this i li' child0 child1.
          li \<noteq> [] \<Longrightarrow> d \<noteq> md \<Longrightarrow> bpl < length li \<Longrightarrow> \<not> degenerate c li
          \<Longrightarrow> partition_loop c (split_axis rnd c li) (split_at rnd c li) li 0 (int (length li) - 1)
                = Some (i, li')
          \<Longrightarrow> mset li' = mset li \<Longrightarrow> 0 < nat i \<Longrightarrow> nat i < length li
          \<Longrightarrow> construct_recursively rnd ib md bpl (d + 1) (take (nat i) li') c new_BoundingBoxTree
                = Some (Inr child0)
          \<Longrightarrow> construct_recursively rnd ib md bpl (d + 1) (drop (nat i) li') c new_BoundingBoxTree
                = Some (Inr child1)
          \<Longrightarrow> P (d + 1) (take (nat i) li') new_BoundingBoxTree child0
          \<Longrightarrow> P (d + 1) (drop (nat i) li') new_BoundingBoxTree child1
          \<Longrightarrow> P d li this (BoundingBoxTree (node_box ib li) (index this) [child0, child1])"
  shows "P d li this t"
  using res
proof (induction "length li" arbitrary: d li this t rule: less_induct)
  case less
  have ne: "li \<noteq> []" using less.prems by (auto simp: construct_recursively_Nil)
  show ?case
  proof (cases "d = md \<or> length li \<le> bpl \<or> degenerate c li")
    case True
    with ne less.prems have "t = BoundingBoxTree (node_box ib li) li (children this)"
      by (simp add: construct_recursively_leaf)
    then show ?thesis using leaf[OF ne True] by simp
  next
    case False
    then have F: "d \<noteq> md" "bpl < length li" "\<not> degenerate c li" by auto
    obtain i li' where
      p: "partition_loop c (split_axis rnd c li) (split_at rnd c li) li 0 (int (length li) - 1)
           = Some (i, li')" and m: "mset li' = mset li"
      using partition_loop_start by blast
    have len: "length li' = length li" using m by (rule mset_eq_length)
    note unf = construct_recursively_split[OF ne F p, where ib=ib and this=this]
    have i_lt: "nat i < length li" using less.prems unf by (auto split: if_splits)
    obtain child0 where
      c0: "construct_recursively rnd ib md bpl (d + 1) (take (nat i) li') c new_BoundingBoxTree
            = Some (Inr child0)"
      using less.prems unf i_lt by (auto split: option.splits sum.splits)
    obtain child1 where
      c1: "construct_recursively rnd ib md bpl (d + 1) (drop (nat i) li') c new_BoundingBoxTree
            = Some (Inr child1)"
      using less.prems unf i_lt c0 by (auto split: option.splits sum.splits)
    have t: "t = BoundingBoxTree (node_box ib li) (index this) [child0, child1]"
      using less.prems unf i_lt c0 c1 by simp
    have "take (nat i) li' \<noteq> []" using c0 by (auto simp: construct_recursively_Nil)
    then have i_pos: "0 < nat i" by auto
    have l0: "length (take (nat i) li') < length li" using i_lt len by simp
    have l1: "length (drop (nat i) li') < length li" using i_pos len ne by simp
    show ?thesis
      unfolding t
      by (rule node[OF ne F p m i_pos i_lt c0 c1 less.hyps[OF l0 c0] less.hyps[OF l1 c1]])
  qed
qed

section \<open>The shape of the constructed tree\<close>

lemma leaf_indices_leaf [simp]: "leaf_indices (BoundingBoxTree b idx []) = idx"
  by (simp add: leaf_indices_def)

lemma leaf_indices_two [simp]:
  "leaf_indices (BoundingBoxTree b idx [child0, child1]) = leaf_indices child0 @ leaf_indices child1"
  by (simp add: leaf_indices_def)

lemma nodes_self: "t \<in> set (nodes t)"
  by (cases t) simp

lemma children_new [simp]: "children new_BoundingBoxTree = []" "index new_BoundingBoxTree = []"
  by (simp_all add: new_BoundingBoxTree_def)

lemma children_clear [simp]: "children (clear this) = []" "index (clear this) = []"
  by (simp_all add: clear_def)

lemma construct_recursively_coverage:
  assumes "construct_recursively rnd ib md bpl d li c this = Some (Inr t)"
  shows "children this = [] \<longrightarrow> mset (leaf_indices t) = mset li"
  using assms
proof (induction rule: construct_recursively_induct)
  case (leaf d li this)
  then show ?case by auto
next
  case (node d li this i li' child0 child1)
  have "mset (leaf_indices child0) + mset (leaf_indices child1)
      = mset (take (nat i) li') + mset (drop (nat i) li')"
    using node.IH by simp
  also have "\<dots> = mset li'" by (simp flip: mset_append)
  finally show ?case using node.hyps by simp
qed

lemma construct_recursively_shape:
  assumes "construct_recursively rnd ib md bpl d li c this = Some (Inr t)"
  shows "index this = [] \<and> children this = [] \<longrightarrow>
     (\<forall>u \<in> set (nodes t). (children u = [] \<and> index u \<noteq> [])
        \<or> (length (children u) = 2 \<and> index u = []))"
  using assms
proof (induction rule: construct_recursively_induct)
  case (leaf d li this)
  then show ?case by auto
next
  case (node d li this i li' child0 child1)
  then show ?case by auto
qed

lemma construct_from_leaf_boxes_Inr:
  assumes "construct_from_leaf_boxes rnd this n ib md bpl = Some (Inr t)"
  shows "n \<ge> 1" "bpl > 0"
    "construct_recursively rnd ib md bpl 0 [0..<n] (map (\<lambda>i. centroid_of rnd (ib ! i)) [0..<n])
       (clear this) = Some (Inr t)"
  using assms by (auto simp: construct_from_leaf_boxes_def Let_def split: if_splits)

text \<open>
  C1. When \<open>construct_from_leaf_boxes\<close> returns a tree for \<open>n\<close> boxes, the \<open>index\<close> arrays of
  its leaves, taken together as a multiset, are exactly the identifiers \<open>0, \<dots>, n - 1\<close>, each
  once: no identifier is lost and none appears in two leaves or twice in one.
\<close>

theorem coverage:
  assumes "construct_from_leaf_boxes rnd this n input_box max_depth boxes_per_leaf = Some (Inr t)"
  shows "mset (leaf_indices t) = mset [0..<n]"
  using construct_recursively_coverage[OF construct_from_leaf_boxes_Inr(3)[OF assms]] by simp

lemma example_run:
  "construct_from_leaf_boxes (\<lambda>x. x) new_BoundingBoxTree 4 example_boxes 30 1
     = Some (Inr example_tree)"
  by code_simp

theorem coverage_witness:
  "construct_from_leaf_boxes (\<lambda>x. x) new_BoundingBoxTree 4 example_boxes 30 1
     = Some (Inr example_tree)
   \<and> mset (leaf_indices example_tree) = mset [0..<4]"
  using coverage[OF example_run] example_run by simp

text \<open>
  C7. Every node of a constructed tree has no child or exactly two children.
\<close>

theorem binary_shape:
  assumes "construct_from_leaf_boxes rnd this n input_box max_depth boxes_per_leaf = Some (Inr t)"
  shows "\<forall>u \<in> set (nodes t). length (children u) = 0 \<or> length (children u) = 2"
  using construct_recursively_shape[OF construct_from_leaf_boxes_Inr(3)[OF assms]] by auto

theorem binary_shape_witness:
  "construct_from_leaf_boxes (\<lambda>x. x) new_BoundingBoxTree 4 example_boxes 30 1
     = Some (Inr example_tree)
   \<and> list_all (\<lambda>u. length (children u) = 0 \<or> length (children u) = 2) (nodes example_tree)"
  using binary_shape[OF example_run] example_run by (simp add: list_all_iff)

text \<open>
  C10. In a constructed tree every leaf (no children) has a non-empty \<open>index\<close> array and
  every internal node has an empty one, so no node carries both children and indices.
\<close>

theorem leaves_hold_indices:
  assumes "construct_from_leaf_boxes rnd this n input_box max_depth boxes_per_leaf = Some (Inr t)"
  shows "\<forall>u \<in> set (nodes t). (children u = [] \<longrightarrow> index u \<noteq> [])
     \<and> (children u \<noteq> [] \<longrightarrow> index u = [])"
  using construct_recursively_shape[OF construct_from_leaf_boxes_Inr(3)[OF assms]] by auto

theorem leaves_hold_indices_witness:
  "construct_from_leaf_boxes (\<lambda>x. x) new_BoundingBoxTree 4 example_boxes 30 1
     = Some (Inr example_tree)
   \<and> list_all (\<lambda>u. if children u = [] then index u \<noteq> [] else index u = [])
         (nodes example_tree)"
  using leaves_hold_indices[OF example_run] example_run by (simp add: list_all_iff)

text \<open>
  The construction always stops: for every rounding function and every input,
  \<open>construct_from_leaf_boxes\<close> and \<open>construct_recursively\<close> return a value (a tree or a failed
  assertion), and so does the loop of the in-place split from every pair of scan
  pointers.
\<close>

lemma construction_stops:
  "(\<exists>r. construct_from_leaf_boxes rnd this n input_box max_depth boxes_per_leaf = Some r)
   \<and> (\<exists>r. construct_recursively rnd input_box max_depth boxes_per_leaf current_depth local_index
            centroid this = Some r)
   \<and> (\<exists>r. partition_loop centroid axis split local_index i j = Some r)"
  using construct_recursively_terminates partition_loop_terminates
  by (simp add: construct_from_leaf_boxes_def Let_def)

text \<open>
  C3. The in-place split, started with the scan pointers at both ends of the slice,
  returns a boundary \<open>i\<close> and a permutation of the slice in which the identifiers at the
  positions \<open>[0, i)\<close> have their centroid on the axis \<open>\<le> split\<close> and those at \<open>[i, count)\<close>
  have it \<open>> split\<close>. The two recursive calls take these two parts.
\<close>

theorem partition_separates:
  "\<exists>i li'. partition_loop centroid axis split local_index 0 (int (length local_index) - 1)
        = Some (i, li')
     \<and> mset li' = mset local_index \<and> 0 \<le> i \<and> i \<le> int (length local_index)
     \<and> (\<forall>k \<in> set (take (nat i) li'). vget (centroid ! k) axis \<le> split)
     \<and> (\<forall>k \<in> set (drop (nat i) li'). vget (centroid ! k) axis > split)"
proof -
  obtain i li' where p: "partition_loop centroid axis split local_index 0 (int (length local_index) - 1)
        = Some (i, li')" "mset li' = mset local_index" "0 \<le> i" "i \<le> int (length local_index)"
     and pre: "\<And>k. k < nat i \<Longrightarrow> vget (centroid ! (li' ! k)) axis \<le> split"
     and post: "\<And>k. nat i \<le> k \<Longrightarrow> k < length li' \<Longrightarrow> \<not> vget (centroid ! (li' ! k)) axis \<le> split"
    using partition_loop_start[of centroid axis split local_index] by blast
  have "vget (centroid ! k) axis \<le> split" if "k \<in> set (take (nat i) li')" for k
  proof -
    from that obtain m where "m < length (take (nat i) li')" "take (nat i) li' ! m = k"
      by (auto simp: in_set_conv_nth)
    then show ?thesis using pre[of m] by auto
  qed
  moreover have "vget (centroid ! k) axis > split" if "k \<in> set (drop (nat i) li')" for k
  proof -
    from that obtain m where "m < length (drop (nat i) li')" "drop (nat i) li' ! m = k"
      by (auto simp: in_set_conv_nth)
    then have "nat i + m < length li'" "li' ! (nat i + m) = k" by auto
    with post[of "nat i + m"] show ?thesis by auto
  qed
  ultimately show ?thesis using p by blast
qed


lemma example_partition:
  "partition_loop example_centroid 0 (11 / 2) [3, 0, 2, 1] 0 3 = Some (2, [1, 0, 2, 3])"
  by code_simp

theorem partition_separates_witness:
  "partition_loop example_centroid 0 (11 / 2) [3, 0, 2, 1] 0 3 = Some (2, [1, 0, 2, 3])
   \<and> mset [1, 0, 2, 3] = mset [3, 0, 2, 1::nat]
   \<and> list_all (\<lambda>k. vget (example_centroid ! k) 0 \<le> 11 / 2) (take 2 [1, 0, 2, 3])
   \<and> list_all (\<lambda>k. vget (example_centroid ! k) 0 > 11 / 2) (drop 2 [1, 0, 2, 3])"
  using partition_separates[of example_centroid 0 "11 / 2" "[3, 0, 2, 1]"] example_partition
  by (auto simp: list_all_iff)

section \<open>The boxes of the nodes\<close>

lemma vec_eq_iff:
  "u = v \<longleftrightarrow> vget u 0 = vget v 0 \<and> vget u 1 = vget v 1 \<and> vget u 2 = vget v 2"
  by (cases u; cases v) auto

lemma vget_vmin: "vget (vmin u v) a = min (vget u a) (vget v a)"
  by (cases u; cases v) simp

lemma vget_vmax: "vget (vmax u v) a = max (vget u a) (vget v a)"
  by (cases u; cases v) simp

lemma Min_insert_min:
  assumes "finite A"
  shows "Min (insert (min x y) A) = Min (insert (x::real) (insert y A))"
proof (cases "A = {}")
  case True
  then show ?thesis by simp
next
  case False
  then show ?thesis using assms by (simp add: min.assoc)
qed

lemma Max_insert_max:
  assumes "finite A"
  shows "Max (insert (max x y) A) = Max (insert (x::real) (insert y A))"
proof (cases "A = {}")
  case True
  then show ?thesis by simp
next
  case False
  then show ?thesis using assms by (simp add: max.assoc)
qed

lemma foldl_include_box_xmin:
  "vget (xmin (foldl (\<lambda>b k. include_box b (ib ! k)) b0 ks)) a
     = Min (insert (vget (xmin b0) a) ((\<lambda>k. vget (xmin (ib ! k)) a) ` set ks))"
proof (induction ks arbitrary: b0)
  case Nil
  then show ?case by simp
next
  case (Cons k ks)
  show ?case
    by (simp only: foldl_Cons Cons.IH)
       (simp add: include_box_def vget_vmin Min_insert_min)
qed

lemma foldl_include_box_xmax:
  "vget (xmax (foldl (\<lambda>b k. include_box b (ib ! k)) b0 ks)) a
     = Max (insert (vget (xmax b0) a) ((\<lambda>k. vget (xmax (ib ! k)) a) ` set ks))"
proof (induction ks arbitrary: b0)
  case Nil
  then show ?case by simp
next
  case (Cons k ks)
  show ?case
    by (simp only: foldl_Cons Cons.IH)
       (simp add: include_box_def vget_vmax Max_insert_max)
qed

lemma box_eq_iff:
  "(b::BoundingBox) = c \<longleftrightarrow> xmin b = xmin c \<and> xmax b = xmax c"
  by (cases b; cases c) auto

lemma node_box_union:
  assumes "li \<noteq> []"
  shows "node_box ib li = union_of_boxes ib li"
proof -
  from assms obtain k ks where li: "li = k # ks" by (cases li) auto
  have "vget (xmin (node_box ib li)) a = Min ((\<lambda>k. vget (xmin (ib ! k)) a) ` set li)" for a
    by (simp add: node_box_def li foldl_include_box_xmin)
  moreover have "vget (xmax (node_box ib li)) a = Max ((\<lambda>k. vget (xmax (ib ! k)) a) ` set li)" for a
    by (simp add: node_box_def li foldl_include_box_xmax)
  ultimately show ?thesis
    by (simp add: box_eq_iff vec_eq_iff union_of_boxes_def Let_def)
qed

lemma union_of_boxes_set:
  assumes "set xs = set ys"
  shows "union_of_boxes ib xs = union_of_boxes ib ys"
  using assms by (simp add: union_of_boxes_def)

lemma union_of_boxes_append:
  assumes "xs \<noteq> []" "ys \<noteq> []"
  shows "union_of_boxes ib (xs @ ys) = include_box (union_of_boxes ib xs) (union_of_boxes ib ys)"
  using assms
  by (simp add: union_of_boxes_def include_box_def Let_def image_Un Min_Un Max_Un)

lemma vget_union_of_boxes:
  assumes "a < 3"
  shows "vget (xmin (union_of_boxes ib ks)) a = Min ((\<lambda>k. vget (xmin (ib ! k)) a) ` set ks)"
    and "vget (xmax (union_of_boxes ib ks)) a = Max ((\<lambda>k. vget (xmax (ib ! k)) a) ` set ks)"
proof -
  from assms have "a = 0 \<or> a = 1 \<or> a = 2" by linarith
  then show "vget (xmin (union_of_boxes ib ks)) a = Min ((\<lambda>k. vget (xmin (ib ! k)) a) ` set ks)"
    and "vget (xmax (union_of_boxes ib ks)) a = Max ((\<lambda>k. vget (xmax (ib ! k)) a) ` set ks)"
    by (auto simp: union_of_boxes_def Let_def)
qed

lemma union_of_boxes_contains:
  assumes "set ys \<subseteq> set xs" "ys \<noteq> []"
  shows "box_contains (union_of_boxes ib xs) (union_of_boxes ib ys)"
proof -
  have "Min ((\<lambda>k. vget (xmin (ib ! k)) a) ` set xs) \<le> Min ((\<lambda>k. vget (xmin (ib ! k)) a) ` set ys)" for a
    using assms by (intro Min_antimono) auto
  moreover have "Max ((\<lambda>k. vget (xmax (ib ! k)) a) ` set ys) \<le> Max ((\<lambda>k. vget (xmax (ib ! k)) a) ` set xs)" for a
    using assms by (intro Max_mono) auto
  ultimately show ?thesis
    by (simp add: box_contains_def list_all_iff vget_union_of_boxes)
qed

lemma leaf_indices_children:
  "concat (map index (filter (\<lambda>u. children u = []) (concat (map nodes cs))))
     = concat (map leaf_indices cs)"
  by (induction cs) (simp_all add: leaf_indices_def)

lemma leaf_indices_node:
  "leaf_indices (BoundingBoxTree b idx cs)
     = (if cs = [] then idx else concat (map leaf_indices cs))"
  using leaf_indices_children[of cs] by (simp add: leaf_indices_def)

lemma nodes_trans:
  "u \<in> set (nodes t) \<Longrightarrow> v \<in> set (nodes u) \<Longrightarrow> v \<in> set (nodes t)"
proof (induction t)
  case (BoundingBoxTree b idx cs)
  then show ?case by (cases "u = BoundingBoxTree b idx cs") auto
qed

lemma leaf_indices_subtree:
  "v \<in> set (nodes u) \<Longrightarrow> set (leaf_indices v) \<subseteq> set (leaf_indices u)"
proof (induction u)
  case (BoundingBoxTree b idx cs)
  show ?case
  proof (cases "v = BoundingBoxTree b idx cs")
    case True
    then show ?thesis by simp
  next
    case False
    with BoundingBoxTree.prems obtain c where c: "c \<in> set cs" "v \<in> set (nodes c)" by auto
    with BoundingBoxTree.IH have "set (leaf_indices v) \<subseteq> set (leaf_indices c)" by blast
    then show ?thesis using c by (auto simp: leaf_indices_node)
  qed
qed

lemma construct_recursively_boxes:
  assumes "construct_recursively rnd ib md bpl d li c this = Some (Inr t)"
  shows "index this = [] \<and> children this = [] \<longrightarrow>
     (\<forall>u \<in> set (nodes t). leaf_indices u \<noteq> []
        \<and> box u = union_of_boxes ib (leaf_indices u)
        \<and> (children u \<noteq> [] \<longrightarrow>
             (\<exists>child0 child1. children u = [child0, child1]
                \<and> box u = include_box (box child0) (box child1))))"
  using assms
proof (induction rule: construct_recursively_induct)
  case (leaf d li this)
  then show ?case by (auto simp: node_box_union)
next
  case (node d li this i li' child0 child1)
  have len: "length li' = length li" using node.hyps(6) by (rule mset_eq_length)
  have m0: "mset (leaf_indices child0) = mset (take (nat i) li')"
    using construct_recursively_coverage[OF node.hyps(9)] by simp
  have m1: "mset (leaf_indices child1) = mset (drop (nat i) li')"
    using construct_recursively_coverage[OF node.hyps(10)] by simp
  have ne0: "leaf_indices child0 \<noteq> []"
  proof
    assume "leaf_indices child0 = []"
    with m0 have "take (nat i) li' = []" by simp
    then show False using node.hyps(7,8) len by simp
  qed
  have ne1: "leaf_indices child1 \<noteq> []"
  proof
    assume "leaf_indices child1 = []"
    with m1 have "drop (nat i) li' = []" by simp
    then show False using node.hyps(7,8) len by simp
  qed
  have "set (leaf_indices child0 @ leaf_indices child1) = set (take (nat i) li' @ drop (nat i) li')"
    by (simp only: set_append mset_eq_setD[OF m0] mset_eq_setD[OF m1])
  also have "\<dots> = set li"
    by (simp only: append_take_drop_id mset_eq_setD[OF node.hyps(6)])
  finally have sets: "set (leaf_indices child0 @ leaf_indices child1) = set li" .
  have b0: "box child0 = union_of_boxes ib (leaf_indices child0)"
    and b1: "box child1 = union_of_boxes ib (leaf_indices child1)"
    using node.IH(1)[THEN mp, OF conjI[OF children_new(2) children_new(1)]]
      node.IH(2)[THEN mp, OF conjI[OF children_new(2) children_new(1)]] nodes_self by blast+
  have root: "node_box ib li = include_box (box child0) (box child1)"
    "node_box ib li = union_of_boxes ib (leaf_indices child0 @ leaf_indices child1)"
    using node_box_union[OF node.hyps(1), of ib] union_of_boxes_set[OF sets, of ib]
      union_of_boxes_append[OF ne0 ne1, of ib] b0 b1 by simp_all
  show ?case
  proof (intro impI ballI)
    fix u
    assume this_empty: "index this = [] \<and> children this = []"
      and u: "u \<in> set (nodes (BoundingBoxTree (node_box ib li) (index this) [child0, child1]))"
    then consider "u = BoundingBoxTree (node_box ib li) (index this) [child0, child1]"
      | "u \<in> set (nodes child0)" | "u \<in> set (nodes child1)" by auto
    then show "leaf_indices u \<noteq> [] \<and> box u = union_of_boxes ib (leaf_indices u)
        \<and> (children u \<noteq> [] \<longrightarrow>
             (\<exists>child0 child1. children u = [child0, child1]
                \<and> box u = include_box (box child0) (box child1)))"
    proof cases
      case 1
      then show ?thesis using root ne0 by simp
    next
      case 2
      then show ?thesis
        using node.IH(1)[THEN mp, OF conjI[OF children_new(2) children_new(1)]] by blast
    next
      case 3
      then show ?thesis
        using node.IH(2)[THEN mp, OF conjI[OF children_new(2) children_new(1)]] by blast
    qed
  qed
qed

text \<open>
  C4. In a constructed tree the \<open>box\<close> of every node is the union of the input boxes of
  the identifiers in the leaves of its subtree; hence it contains the box of every node
  of that subtree; and the box of an internal node is the union (\<open>include_box\<close>) of the
  boxes of its two children.
\<close>

theorem box_is_union:
  assumes "construct_from_leaf_boxes rnd this n input_box max_depth boxes_per_leaf = Some (Inr t)"
  shows "\<forall>u \<in> set (nodes t).
           box u = union_of_boxes input_box (leaf_indices u)
         \<and> (\<forall>v \<in> set (nodes u). box_contains (box u) (box v))
         \<and> (children u \<noteq> [] \<longrightarrow>
              (\<exists>child0 child1. children u = [child0, child1]
                 \<and> box u = include_box (box child0) (box child1)))"
proof
  fix u assume u: "u \<in> set (nodes t)"
  have inv: "\<forall>u \<in> set (nodes t). leaf_indices u \<noteq> []
        \<and> box u = union_of_boxes input_box (leaf_indices u)
        \<and> (children u \<noteq> [] \<longrightarrow>
             (\<exists>child0 child1. children u = [child0, child1]
                \<and> box u = include_box (box child0) (box child1)))"
    by (rule construct_recursively_boxes[OF construct_from_leaf_boxes_Inr(3)[OF assms],
          THEN mp, OF conjI[OF children_clear(2) children_clear(1)]])
  have "box_contains (box u) (box v)" if v: "v \<in> set (nodes u)" for v
  proof -
    have "v \<in> set (nodes t)" using u v by (rule nodes_trans)
    then have "box v = union_of_boxes input_box (leaf_indices v)" "leaf_indices v \<noteq> []"
      using inv by simp_all
    moreover have "box u = union_of_boxes input_box (leaf_indices u)" using inv u by simp
    ultimately show ?thesis
      using union_of_boxes_contains[OF leaf_indices_subtree[OF v]] by simp
  qed
  then show "box u = union_of_boxes input_box (leaf_indices u)
         \<and> (\<forall>v \<in> set (nodes u). box_contains (box u) (box v))
         \<and> (children u \<noteq> [] \<longrightarrow>
              (\<exists>child0 child1. children u = [child0, child1]
                 \<and> box u = include_box (box child0) (box child1)))"
    using inv u by blast
qed

theorem box_is_union_witness:
  "construct_from_leaf_boxes (\<lambda>x. x) new_BoundingBoxTree 4 example_boxes 30 1
     = Some (Inr example_tree)
   \<and> box example_tree = union_of_boxes example_boxes (leaf_indices example_tree)
   \<and> box example_tree = \<lparr>xmin = Vec3d 0 0 0, xmax = Vec3d 11 0 0\<rparr>
   \<and> list_all (\<lambda>v. box_contains (box example_tree) (box v)) (nodes example_tree)
   \<and> box example_tree
       = include_box (box (children example_tree ! 0)) (box (children example_tree ! 1))"
proof -
  have self: "example_tree \<in> set (nodes example_tree)" by (rule nodes_self)
  have ch: "children example_tree \<noteq> []" by (simp add: example_tree_def)
  from box_is_union[OF example_run] self ch
  have "box example_tree = union_of_boxes example_boxes (leaf_indices example_tree)"
    "\<forall>v \<in> set (nodes example_tree). box_contains (box example_tree) (box v)"
    "\<exists>child0 child1. children example_tree = [child0, child1]
       \<and> box example_tree = include_box (box child0) (box child1)"
    by blast+
  then show ?thesis using example_run by (auto simp: list_all_iff example_tree_def)
qed

section \<open>The axis of the split\<close>

lemma choose_axis_unfold:
  "choose_axis rnd cb =
     (let a1 = (if extent rnd cb 1 > extent rnd cb 0 then 1 else 0)
      in if extent rnd cb 2 > extent rnd cb a1 then 2 else a1)"
proof -
  have "[1..<3] = [1, 2::nat]" by (simp add: upt_rec)
  then show ?thesis by (simp add: choose_axis_def Let_def)
qed

text \<open>
  The scan of lines 106-111 over the extents as \<open>extent\<close> computes them.
\<close>

lemma split_axis_first_maximal:
  "split_axis rnd centroid local_index < 3
   \<and> (\<forall>a < 3. extent rnd (centroid_box_of centroid local_index) a
            \<le> extent rnd (centroid_box_of centroid local_index)
                 (split_axis rnd centroid local_index))
   \<and> (\<forall>a < split_axis rnd centroid local_index.
          extent rnd (centroid_box_of centroid local_index) a
            < extent rnd (centroid_box_of centroid local_index)
                (split_axis rnd centroid local_index))"
proof -
  define cb where "cb = centroid_box_of centroid local_index"
  have three: "a < 3 \<longleftrightarrow> a = 0 \<or> a = 1 \<or> a = 2" for a :: nat by auto
  have two: "a < 2 \<longleftrightarrow> a = 0 \<or> a = 1" for a :: nat by auto
  show ?thesis
    unfolding split_axis_def cb_def[symmetric] choose_axis_unfold Let_def
    by (auto simp: three two)
qed

lemma tie_axis: "split_axis (\<lambda>x. x) tie_centroid [0, 1] = 1"
  by code_simp

section \<open>Coincident centroids\<close>

lemma vmin_same [simp]: "vmin v v = v"
  by (cases v) simp

lemma vmax_same [simp]: "vmax v v = v"
  by (cases v) simp

lemma include_box_same [simp]: "include_box b b = (b::BoundingBox)"
  by (cases b) (simp add: include_box_def)

lemma foldl_include_box_same:
  assumes "\<forall>k \<in> set ks. ib ! k = b"
  shows "foldl (\<lambda>b k. include_box b (ib ! k)) b ks = b"
  using assms by (induction ks) simp_all

lemma foldl_include_point_same:
  assumes "\<forall>k \<in> set ks. c ! k = p"
  shows "foldl (\<lambda>b k. include_point b (c ! k)) (box_of_point p) ks = box_of_point p"
  using assms by (induction ks) (simp_all add: include_point_def box_of_point_def)

lemma degenerate_same:
  assumes "li \<noteq> []" "\<forall>k \<in> set li. c ! k = p"
  shows "degenerate c li"
proof -
  from assms obtain k ks where li: "li = k # ks" by (cases li) auto
  have "centroid_box_of c li = box_of_point p"
    using assms(2) by (simp add: centroid_box_of_def li foldl_include_point_same)
  then show ?thesis by (simp add: degenerate_def box_of_point_def)
qed

lemma node_box_same:
  assumes "li \<noteq> []" "\<forall>k \<in> set li. ib ! k = b"
  shows "node_box ib li = b"
proof -
  from assms obtain k ks where li: "li = k # ks" by (cases li) auto
  show ?thesis using assms(2) by (simp add: node_box_def li foldl_include_box_same)
qed

text \<open>
  C6. When all \<open>n \<ge> 1\<close> input boxes are the same box \<open>b\<close>, the constructed tree is the
  single leaf with the box \<open>b\<close> and all the identifiers \<open>0, \<dots>, n - 1\<close>, whatever
  \<open>max_depth\<close>, \<open>boxes_per_leaf \<ge> 1\<close> and the rounding are.
\<close>

theorem identical_boxes_single_leaf:
  assumes "n \<ge> 1" "boxes_per_leaf \<ge> 1" "\<forall>i < n. input_box ! i = b"
  shows "construct_from_leaf_boxes rnd this n input_box max_depth boxes_per_leaf
           = Some (Inr (BoundingBoxTree b [0..<n] []))"
proof -
  define c where "c = map (\<lambda>i. centroid_of rnd (input_box ! i)) [0..<n]"
  have ne: "[0..<n] \<noteq> []" using assms(1) by simp
  have "\<forall>k \<in> set [0..<n]. c ! k = centroid_of rnd b"
    using assms(3) by (simp add: c_def)
  then have deg: "degenerate c [0..<n]" by (rule degenerate_same[OF ne])
  have nb: "node_box input_box [0..<n] = b"
    using assms(3) by (intro node_box_same[OF ne]) simp
  have "construct_recursively rnd input_box max_depth boxes_per_leaf 0 [0..<n] c (clear this)
      = Some (Inr (BoundingBoxTree b [0..<n] []))"
    using construct_recursively_leaf[OF ne, of 0 max_depth boxes_per_leaf c rnd input_box "clear this"]
      deg nb by simp
  then show ?thesis
    using assms(1,2) by (simp add: construct_from_leaf_boxes_def c_def)
qed

theorem identical_boxes_single_leaf_witness:
  "construct_from_leaf_boxes binary64 new_BoundingBoxTree 2 [unit_box, unit_box] 30 1
     = Some (Inr (BoundingBoxTree unit_box [0, 1] []))"
proof -
  have "\<forall>i < 2. [unit_box, unit_box] ! i = unit_box" by (simp add: less_2_cases_iff)
  from identical_boxes_single_leaf[OF _ _ this, of 1 binary64 new_BoundingBoxTree 30]
  show ?thesis by (simp add: upt_rec)
qed

section \<open>Depth and leaf size\<close>

lemma foldl_include_point_xmin:
  "vget (xmin (foldl (\<lambda>b k. include_point b (c ! k)) b0 ks)) a
     = Min (insert (vget (xmin b0) a) ((\<lambda>k. vget (c ! k) a) ` set ks))"
proof (induction ks arbitrary: b0)
  case Nil
  then show ?case by simp
next
  case (Cons k ks)
  show ?case
    by (simp only: foldl_Cons Cons.IH)
       (simp add: include_point_def vget_vmin Min_insert_min)
qed

lemma foldl_include_point_xmax:
  "vget (xmax (foldl (\<lambda>b k. include_point b (c ! k)) b0 ks)) a
     = Max (insert (vget (xmax b0) a) ((\<lambda>k. vget (c ! k) a) ` set ks))"
proof (induction ks arbitrary: b0)
  case Nil
  then show ?case by simp
next
  case (Cons k ks)
  show ?case
    by (simp only: foldl_Cons Cons.IH)
       (simp add: include_point_def vget_vmax Max_insert_max)
qed

lemma centroid_box_min_max:
  assumes "li \<noteq> []"
  shows "vget (xmin (centroid_box_of c li)) a = Min ((\<lambda>k. vget (c ! k) a) ` set li)"
    and "vget (xmax (centroid_box_of c li)) a = Max ((\<lambda>k. vget (c ! k) a) ` set li)"
proof -
  from assms obtain k ks where li: "li = k # ks" by (cases li) auto
  show "vget (xmin (centroid_box_of c li)) a = Min ((\<lambda>k. vget (c ! k) a) ` set li)"
    by (simp add: centroid_box_of_def li foldl_include_point_xmin box_of_point_def)
  show "vget (xmax (centroid_box_of c li)) a = Max ((\<lambda>k. vget (c ! k) a) ` set li)"
    by (simp add: centroid_box_of_def li foldl_include_point_xmax box_of_point_def)
qed

lemma degenerate_coincide:
  assumes "li \<noteq> []" "degenerate c li" "k \<in> set li" "k' \<in> set li"
  shows "c ! k = c ! k'"
proof -
  have "vget (c ! k) a = vget (c ! k') a" for a
  proof -
    let ?S = "(\<lambda>k. vget (c ! k) a) ` set li"
    have eq: "Min ?S = Max ?S"
      using assms(2) centroid_box_min_max[OF assms(1), of c a] by (simp add: degenerate_def)
    have "Min ?S \<le> vget (c ! k) a" "vget (c ! k) a \<le> Max ?S"
      "Min ?S \<le> vget (c ! k') a" "vget (c ! k') a \<le> Max ?S"
      using assms(3,4) by simp_all
    with eq show ?thesis by linarith
  qed
  then show ?thesis by (simp add: vec_eq_iff)
qed

lemma construct_recursively_depth:
  assumes "construct_recursively rnd ib md bpl d li c this = Some (Inr t)"
  shows "d \<le> md \<and> children this = [] \<longrightarrow>
     (\<forall>p \<in> set (nodes_depth d t). fst p \<le> md
        \<and> (children (snd p) = [] \<longrightarrow> set (index (snd p)) \<subseteq> set li
             \<and> (length (index (snd p)) \<le> bpl \<or> fst p = md
                  \<or> (\<forall>k \<in> set (index (snd p)). \<forall>k' \<in> set (index (snd p)). c ! k = c ! k'))))"
  using assms
proof (induction rule: construct_recursively_induct)
  case (leaf d li this)
  show ?case
  proof (intro impI ballI)
    fix p
    assume pre: "d \<le> md \<and> children this = []"
      and "p \<in> set (nodes_depth d (BoundingBoxTree (node_box ib li) li (children this)))"
    then have p: "p = (d, BoundingBoxTree (node_box ib li) li [])" by simp
    have "length li \<le> bpl \<or> d = md \<or> (\<forall>k \<in> set li. \<forall>k' \<in> set li. c ! k = c ! k')"
      using leaf degenerate_coincide[OF leaf(1), of c] by blast
    then show "fst p \<le> md
        \<and> (children (snd p) = [] \<longrightarrow> set (index (snd p)) \<subseteq> set li
             \<and> (length (index (snd p)) \<le> bpl \<or> fst p = md
                  \<or> (\<forall>k \<in> set (index (snd p)). \<forall>k' \<in> set (index (snd p)). c ! k = c ! k')))"
      using pre by (simp add: p)
  qed
next
  case (node d li this i li' child0 child1)
  have sub: "set (take (nat i) li') \<subseteq> set li" "set (drop (nat i) li') \<subseteq> set li"
    using mset_eq_setD[OF node.hyps(6)] set_take_subset[of "nat i" li']
      set_drop_subset[of "nat i" li'] by auto
  show ?case
  proof (intro impI ballI)
    fix p
    assume pre: "d \<le> md \<and> children this = []"
      and p: "p \<in> set (nodes_depth d
              (BoundingBoxTree (node_box ib li) (index this) [child0, child1]))"
    from pre node.hyps(2) have d1: "d + 1 \<le> md \<and> children new_BoundingBoxTree = []" by simp
    note IH0 = node.IH(1)[THEN mp, OF d1, THEN bspec] and IH1 = node.IH(2)[THEN mp, OF d1, THEN bspec]
    from p consider
        "p = (d, BoundingBoxTree (node_box ib li) (index this) [child0, child1])"
      | "p \<in> set (nodes_depth (d + 1) child0)" | "p \<in> set (nodes_depth (d + 1) child1)"
      by auto
    then show "fst p \<le> md
        \<and> (children (snd p) = [] \<longrightarrow> set (index (snd p)) \<subseteq> set li
             \<and> (length (index (snd p)) \<le> bpl \<or> fst p = md
                  \<or> (\<forall>k \<in> set (index (snd p)). \<forall>k' \<in> set (index (snd p)). c ! k = c ! k')))"
    proof cases
      case 1
      then show ?thesis using pre by simp
    next
      case 2
      from IH0[OF 2] sub(1) show ?thesis by blast
    next
      case 3
      from IH1[OF 3] sub(2) show ?thesis by blast
    qed
  qed
qed

text \<open>
  C5, as amended. In a constructed tree no node is deeper than \<open>max_depth\<close>, and every
  leaf holds at most \<open>boxes_per_leaf\<close> identifiers, or lies at depth \<open>max_depth\<close>, or
  holds identifiers whose input boxes all have the same centroid (the leaf of line 99).
\<close>

theorem depth_and_leaf_bound:
  assumes "construct_from_leaf_boxes rnd this n input_box max_depth boxes_per_leaf = Some (Inr t)"
  shows "\<forall>(d, u) \<in> set (nodes_depth 0 t). d \<le> max_depth
     \<and> (children u = [] \<longrightarrow>
          length (index u) \<le> boxes_per_leaf \<or> d = max_depth
          \<or> (\<forall>k \<in> set (index u). \<forall>k' \<in> set (index u).
                centroid_of rnd (input_box ! k) = centroid_of rnd (input_box ! k')))"
proof -
  define c where "c = map (\<lambda>i. centroid_of rnd (input_box ! i)) [0..<n]"
  have pre: "0 \<le> max_depth \<and> children (clear this) = []" by simp
  note inv0 = construct_recursively_depth[OF construct_from_leaf_boxes_Inr(3)[OF assms],
      THEN mp, OF pre, THEN bspec, folded c_def]
  have cen: "c ! k = centroid_of rnd (input_box ! k)" if "k < n" for k
    using that by (simp add: c_def)
  show ?thesis
  proof (intro ballI, clarify, intro conjI impI)
    fix d u assume du: "(d, u) \<in> set (nodes_depth 0 t)"
    note inv = inv0[OF du, simplified fst_conv snd_conv]
    from inv show "d \<le> max_depth" by blast
    assume leaf: "children u = []"
    with inv have sub: "set (index u) \<subseteq> set [0..<n]"
      and alt: "length (index u) \<le> boxes_per_leaf \<or> d = max_depth
                  \<or> (\<forall>k \<in> set (index u). \<forall>k' \<in> set (index u). c ! k = c ! k')"
      by blast+
    have "centroid_of rnd (input_box ! k) = centroid_of rnd (input_box ! k')"
      if "\<forall>k \<in> set (index u). \<forall>k' \<in> set (index u). c ! k = c ! k'"
        "k \<in> set (index u)" "k' \<in> set (index u)" for k k'
    proof -
      have "k < n" "k' < n" using sub that(2,3) by auto
      then show ?thesis using that cen by metis
    qed
    with alt show "length (index u) \<le> boxes_per_leaf \<or> d = max_depth
          \<or> (\<forall>k \<in> set (index u). \<forall>k' \<in> set (index u).
                centroid_of rnd (input_box ! k) = centroid_of rnd (input_box ! k'))"
      by blast
  qed
qed

lemma identical_run:
  "construct_from_leaf_boxes binary64 new_BoundingBoxTree 2 [unit_box, unit_box] 30 1
     = Some (Inr (BoundingBoxTree unit_box [0, 1] []))"
  by code_simp

text \<open>
  C5 as the spec states it fails: two copies of the unit cube with \<open>boxes_per_leaf = 1\<close>
  and \<open>max_depth = 30\<close> give one leaf with two identifiers at depth 0.
\<close>

theorem termination_bound_counterexample:
  "construct_from_leaf_boxes binary64 new_BoundingBoxTree 2 [unit_box, unit_box] 30 1
     = Some (Inr (BoundingBoxTree unit_box [0, 1] []))
   \<and> \<not> termination_bound 30 1 (BoundingBoxTree unit_box [0, 1] [])"
  using identical_run by (simp add: termination_bound_def)

theorem depth_and_leaf_bound_witness:
  "construct_from_leaf_boxes binary64 new_BoundingBoxTree 2 [unit_box, unit_box] 30 1
     = Some (Inr (BoundingBoxTree unit_box [0, 1] []))
   \<and> (0::nat) \<le> 30
   \<and> centroid_of binary64 ([unit_box, unit_box] ! 0) = centroid_of binary64 ([unit_box, unit_box] ! 1)"
  using depth_and_leaf_bound[OF identical_run] identical_run by simp

section \<open>The splitting value\<close>

text \<open>
  With exact arithmetic the splitting value lies strictly between the least and the
  greatest centroid on the chosen axis whenever the centroids do not all coincide; a
  splitting value strictly between them leaves both parts of the split non-empty, for
  every rounding; so with exact arithmetic no assertion fails.
\<close>

lemma choose_axis_maximal:
  assumes "a < 3"
  shows "extent rnd cb a \<le> extent rnd cb (choose_axis rnd cb)"
proof -
  from assms have "a = 0 \<or> a = 1 \<or> a = 2" by linarith
  then show ?thesis by (auto simp: choose_axis_unfold Let_def)
qed

lemma exact_axis_extent:
  assumes "li \<noteq> []" "\<not> degenerate c li"
  shows "vget (xmin (centroid_box_of c li)) (split_axis (\<lambda>x. x) c li)
       < vget (xmax (centroid_box_of c li)) (split_axis (\<lambda>x. x) c li)"
proof -
  let ?cb = "centroid_box_of c li"
  have le: "vget (xmin ?cb) a \<le> vget (xmax ?cb) a" for a
    using assms(1) by (simp add: centroid_box_min_max[OF assms(1)])
  have small: "(0::nat) < 3" "(1::nat) < 3" "(2::nat) < 3" by simp_all
  from assms(2) have "vget (xmax ?cb) 0 \<noteq> vget (xmin ?cb) 0
      \<or> vget (xmax ?cb) 1 \<noteq> vget (xmin ?cb) 1 \<or> vget (xmax ?cb) 2 \<noteq> vget (xmin ?cb) 2"
    unfolding degenerate_def vec_eq_iff by blast
  with small obtain a where a: "a < 3" "vget (xmax ?cb) a \<noteq> vget (xmin ?cb) a"
    by blast
  with le[of a] have "0 < extent (\<lambda>x. x) ?cb a" by (simp add: extent_def)
  also have "\<dots> \<le> extent (\<lambda>x. x) ?cb (split_axis (\<lambda>x. x) c li)"
    unfolding split_axis_def by (rule choose_axis_maximal[OF a(1)])
  finally show ?thesis by (simp add: extent_def)
qed

lemma exact_split_inside:
  assumes "li \<noteq> []" "\<not> degenerate c li"
  shows "vget (xmin (centroid_box_of c li)) (split_axis (\<lambda>x. x) c li) < split_at (\<lambda>x. x) c li
       \<and> split_at (\<lambda>x. x) c li < vget (xmax (centroid_box_of c li)) (split_axis (\<lambda>x. x) c li)"
  using exact_axis_extent[OF assms]
  by (auto simp: split_at_def split_value_def Let_def)

lemma split_inside_both_parts:
  assumes ne: "li \<noteq> []"
    and lo: "vget (xmin (centroid_box_of c li)) axis < split"
    and hi: "split < vget (xmax (centroid_box_of c li)) axis"
    and p: "partition_loop c axis split li 0 (int (length li) - 1) = Some (i, li')"
  shows "0 < nat i \<and> nat i < length li"
proof -
  from partition_loop_start[of c axis split li] p
  have m: "mset li' = mset li"
    and pre: "\<And>k. k < nat i \<Longrightarrow> vget (c ! (li' ! k)) axis \<le> split"
    and post: "\<And>k. nat i \<le> k \<Longrightarrow> k < length li' \<Longrightarrow> \<not> vget (c ! (li' ! k)) axis \<le> split"
    by auto
  have len: "length li' = length li" using m by (rule mset_eq_length)
  have sets: "set li' = set li" using m by (rule mset_eq_setD)
  let ?S = "(\<lambda>k. vget (c ! k) axis) ` set li"
  have fin: "finite ?S" "?S \<noteq> {}" using ne by simp_all
  from Min_in[OF fin] obtain k where k: "k \<in> set li" "vget (c ! k) axis = Min ?S" by auto
  from Max_in[OF fin] obtain k' where k': "k' \<in> set li" "vget (c ! k') axis = Max ?S" by auto
  from k(1) have "k \<in> set li'" by (simp only: sets)
  then obtain m where m: "m < length li'" "li' ! m = k" by (auto simp: in_set_conv_nth)
  from k'(1) have "k' \<in> set li'" by (simp only: sets)
  then obtain m' where m': "m' < length li'" "li' ! m' = k'" by (auto simp: in_set_conv_nth)
  have "vget (c ! (li' ! m)) axis \<le> split"
    using lo k(2) m(2) by (simp add: centroid_box_min_max[OF ne])
  with post[of m] m(1) have "m < nat i" by linarith
  moreover have "\<not> vget (c ! (li' ! m')) axis \<le> split"
    using hi k'(2) m'(2) by (simp add: centroid_box_min_max[OF ne])
  with pre[of m'] have "nat i \<le> m'" by linarith
  ultimately show ?thesis using m'(1) len by linarith
qed

lemma exact_construct_recursively_returns:
  assumes "li \<noteq> []"
  shows "\<exists>t. construct_recursively (\<lambda>x. x) ib md bpl d li c this = Some (Inr t)"
  using assms
proof (induction "length li" arbitrary: d li this rule: less_induct)
  case less
  show ?case
  proof (cases "d = md \<or> length li \<le> bpl \<or> degenerate c li")
    case True
    then show ?thesis using less.prems by (simp add: construct_recursively_leaf)
  next
    case False
    then have F: "d \<noteq> md" "bpl < length li" "\<not> degenerate c li" by auto
    obtain i li' where
      p: "partition_loop c (split_axis (\<lambda>x. x) c li) (split_at (\<lambda>x. x) c li) li 0
            (int (length li) - 1) = Some (i, li')" and m: "mset li' = mset li"
      using partition_loop_start by blast
    have len: "length li' = length li" using m by (rule mset_eq_length)
    from exact_split_inside[OF less.prems F(3)]
    have i: "0 < nat i" "nat i < length li"
      using split_inside_both_parts[OF less.prems _ _ p] by blast+
    have "length (take (nat i) li') < length li" "take (nat i) li' \<noteq> []"
      using i len by auto
    from less.hyps[OF this] obtain child0 where
      c0: "construct_recursively (\<lambda>x. x) ib md bpl (d + 1) (take (nat i) li') c
             new_BoundingBoxTree = Some (Inr child0)" by blast
    have "length (drop (nat i) li') < length li" "drop (nat i) li' \<noteq> []"
      using i len by auto
    from less.hyps[OF this] obtain child1 where
      c1: "construct_recursively (\<lambda>x. x) ib md bpl (d + 1) (drop (nat i) li') c
             new_BoundingBoxTree = Some (Inr child1)" by blast
    show ?thesis
      using construct_recursively_split[OF less.prems F p, where ib=ib and this=this] i c0 c1
      by simp
  qed
qed

lemma exact_construct_returns:
  assumes "n \<ge> 1" "bpl \<ge> 1"
  shows "\<exists>t. construct_from_leaf_boxes (\<lambda>x. x) this n ib md bpl = Some (Inr t)"
proof -
  have "[0..<n] \<noteq> []" using assms(1) by simp
  from exact_construct_recursively_returns[OF this] show ?thesis
    using assms by (simp add: construct_from_leaf_boxes_def)
qed

text \<open>
  With the rounding of double precision the splitting value can be the greatest centroid
  itself. The corners of \<open>close_boxes\<close> are doubles; the centroids on the axis 0 are
  \<open>1 + 2^-52\<close> and \<open>1 + 2^-51\<close>; their sum \<open>2 + 3 * 2^-52\<close> lies halfway between two
  doubles and rounds to the even one, \<open>2 + 2^-50\<close>, so the mean and the midpoint of lines
  115-117 are both \<open>1 + 2^-51\<close>.
\<close>

lemma close_doubles:
  "binary64 1 = 1 \<and> binary64 (1 + 1 / 2 ^ 51) = 1 + 1 / 2 ^ 51
   \<and> binary64 (1 + 1 / 2 ^ 50) = 1 + 1 / 2 ^ 50"
  by code_simp

lemma close_split:
  "split_axis binary64 close_centroid [0, 1] = 0
   \<and> vget (mean_of binary64 close_centroid [0, 1]) 0 = 1 + 1 / 2 ^ 51
   \<and> split_at binary64 close_centroid [0, 1] = 1 + 1 / 2 ^ 51
   \<and> vget (xmax (centroid_box_of close_centroid [0, 1])) 0 = 1 + 1 / 2 ^ 51"
  by code_simp

lemma close_partition:
  "partition_loop close_centroid 0 (1 + 1 / 2 ^ 51) [0, 1] 0 1 = Some (2, [0, 1])"
  by code_simp

lemma close_run:
  "construct_from_leaf_boxes binary64 new_BoundingBoxTree 2 close_boxes 30 1
     = Some (Inl AssertionFailed)"
  by code_simp

lemma close_run_exact:
  "construct_from_leaf_boxes (\<lambda>x. x) new_BoundingBoxTree 2 close_boxes 30 1
     = Some (Inr (BoundingBoxTree \<lparr>xmin = Vec3d 1 0 0, xmax = Vec3d (1 + 1 / 2 ^ 50) 1 1\<rparr> []
         [BoundingBoxTree \<lparr>xmin = Vec3d 1 0 0, xmax = Vec3d (1 + 1 / 2 ^ 51) 1 1\<rparr> [0] [],
          BoundingBoxTree \<lparr>xmin = Vec3d 1 0 0, xmax = Vec3d (1 + 1 / 2 ^ 50) 1 1\<rparr> [1] []]))"
  by code_simp

text \<open>
  C2 fails on the code. For \<open>close_boxes\<close> with \<open>boxes_per_leaf = 1\<close> and
  \<open>max_depth = 30\<close> a split is attempted on the axis 0; the splitting value is the greatest
  centroid \<open>centroid_box.xmax[0]\<close>, not a value strictly inside; the in-place split returns
  \<open>i = 2 = num_indices\<close>; and the assertion of line 134 fails.
\<close>

theorem split_value_not_inside:
  "binary64 1 = 1 \<and> binary64 (1 + 1 / 2 ^ 51) = 1 + 1 / 2 ^ 51
   \<and> binary64 (1 + 1 / 2 ^ 50) = 1 + 1 / 2 ^ 50
   \<and> split_axis binary64 close_centroid [0, 1] = 0
   \<and> split_at binary64 close_centroid [0, 1]
       = vget (xmax (centroid_box_of close_centroid [0, 1])) 0
   \<and> partition_loop close_centroid 0 (split_at binary64 close_centroid [0, 1]) [0, 1] 0 1
       = Some (2, [0, 1])
   \<and> construct_from_leaf_boxes binary64 new_BoundingBoxTree 2 close_boxes 30 1
       = Some (Inl AssertionFailed)"
proof -
  from close_split
  have axis: "split_axis binary64 close_centroid [0, 1] = 0"
    and split: "split_at binary64 close_centroid [0, 1] = 1 + 1 / 2 ^ 51"
    and top: "vget (xmax (centroid_box_of close_centroid [0, 1])) 0 = 1 + 1 / 2 ^ 51"
    by blast+
  show ?thesis
    by (simp only: close_doubles axis split top close_partition close_run simp_thms)
qed

section \<open>The axis of the split and the extents of the centroids\<close>

lemma extent_centroid_extent:
  assumes "local_index \<noteq> []"
  shows "extent rnd (centroid_box_of centroid local_index) a
           = rnd (centroid_extent centroid local_index a)"
  by (simp add: extent_def centroid_extent_def centroid_box_min_max[OF assms])

text \<open>
  C9, as amended. When a split is attempted, the axis is the first of the axes 0, 1, 2 on
  which the extent as the source computes it, the double \<open>xmax[a] - xmin[a]\<close>, that is the
  rounded difference of the greatest and the least centroid coordinate of the slice, is
  greatest: no axis has a greater computed extent and every earlier axis has a strictly
  smaller one. With exact arithmetic (\<open>rnd\<close> the identity) this is the claim as the spec
  words it.
\<close>

theorem axis_first_maximal_computed:
  assumes "local_index \<noteq> []"
  shows "split_axis rnd centroid local_index < 3
   \<and> (\<forall>a < 3. rnd (centroid_extent centroid local_index a)
            \<le> rnd (centroid_extent centroid local_index (split_axis rnd centroid local_index)))
   \<and> (\<forall>a < split_axis rnd centroid local_index.
          rnd (centroid_extent centroid local_index a)
            < rnd (centroid_extent centroid local_index (split_axis rnd centroid local_index)))"
  using split_axis_first_maximal[of rnd centroid local_index]
  unfolding extent_centroid_extent[OF assms] .

lemma wide_values:
  "wide_centroid = [Vec3d 0 (- 1) 0, Vec3d (2 ^ 53) (2 ^ 53) 0]"
  by code_simp

lemma wide_axis: "split_axis binary64 wide_centroid [0, 1] = 0"
  by code_simp

lemma wide_extents:
  "centroid_extent wide_centroid [0, 1] 0 = 2 ^ 53
   \<and> centroid_extent wide_centroid [0, 1] 1 = 2 ^ 53 + 1
   \<and> centroid_extent wide_centroid [0, 1] 2 = 0"
  by (simp add: wide_values centroid_extent_def)

lemma wide_rounded:
  "binary64 (2 ^ 53) = 2 ^ 53 \<and> binary64 (2 ^ 53 + 1) = 2 ^ 53 \<and> binary64 (- 1) = - 1"
  by code_simp

lemma wide_not_degenerate: "\<not> degenerate wide_centroid [0, 1]"
  by code_simp

text \<open>
  C9 as the spec states it fails: for \<open>wide_boxes\<close> a split is attempted, the centroid
  extent \<open>2^53 + 1\<close> on the axis 1 is strictly larger than the extent \<open>2^53\<close> on the axis 0,
  but both differences are the double \<open>2^53\<close>, and the axis stays 0.
\<close>

theorem axis_extent_counterexample:
  "\<not> degenerate wide_centroid [0, 1]
   \<and> split_axis binary64 wide_centroid [0, 1] = 0
   \<and> centroid_extent wide_centroid [0, 1] 0 < centroid_extent wide_centroid [0, 1] 1"
  using wide_not_degenerate wide_axis wide_extents by simp

theorem axis_first_maximal_computed_witness:
  "split_axis binary64 wide_centroid [0, 1] = 0
   \<and> binary64 (centroid_extent wide_centroid [0, 1] 1)
       \<le> binary64 (centroid_extent wide_centroid [0, 1] 0)
   \<and> binary64 (centroid_extent wide_centroid [0, 1] 2)
       \<le> binary64 (centroid_extent wide_centroid [0, 1] 0)"
proof -
  have ne: "[0, 1::nat] \<noteq> []" by simp
  have small: "(1::nat) < 3" "(2::nat) < 3" by simp_all
  from axis_first_maximal_computed[OF ne, of binary64 wide_centroid] small
  have "binary64 (centroid_extent wide_centroid [0, 1] 1)
          \<le> binary64 (centroid_extent wide_centroid [0, 1] (split_axis binary64 wide_centroid [0, 1]))"
    "binary64 (centroid_extent wide_centroid [0, 1] 2)
          \<le> binary64 (centroid_extent wide_centroid [0, 1] (split_axis binary64 wide_centroid [0, 1]))"
    by blast+
  then show ?thesis by (simp only: wide_axis simp_thms)
qed

section \<open>Splits that do not shorten the slice\<close>

text \<open>
  C8 fails on the code. \<open>close_boxes\<close> is a valid input (two boxes,
  \<open>boxes_per_leaf = 1\<close>). The split of its slice does not decrease the slice size: the
  boundary is \<open>i = 2 = num_indices\<close>, so the first part is the whole slice; the assertion of
  line 134 fails and no tree is returned. The construction stops all the same
  (\<open>construction_stops\<close>).
\<close>

theorem split_keeps_whole_slice:
  "1 \<le> length close_boxes \<and> length close_boxes = 2
   \<and> partition_loop close_centroid (split_axis binary64 close_centroid [0, 1])
         (split_at binary64 close_centroid [0, 1]) [0, 1] 0 (int (length [0, 1::nat]) - 1)
       = Some (2, [0, 1])
   \<and> length (take (nat 2) [0, 1::nat]) = length [0, 1::nat]
   \<and> construct_from_leaf_boxes binary64 new_BoundingBoxTree (length close_boxes) close_boxes 30 1
       = Some (Inl AssertionFailed)"
proof -
  from close_split
  have axis: "split_axis binary64 close_centroid [0, 1] = 0"
    and split: "split_at binary64 close_centroid [0, 1] = 1 + 1 / 2 ^ 51"
    by blast+
  have len: "length close_boxes = 2" by (simp add: close_boxes_def)
  have one: "int (length [0, 1::nat]) - 1 = 1" by simp
  have whole: "length (take (nat 2) [0, 1::nat]) = length [0, 1::nat]" by simp
  have "(1::nat) \<le> 2" by simp
  then show ?thesis
    by (simp only: len axis split one whole close_partition close_run simp_thms)
qed

end
